theory Spec2Isabelle
  imports Main "HOL-Library.Word"
begin

unbundle bit_operations_syntax

section \<open>The block decoder of expand.c\<close>

text \<open>
  The decoder works on two buffers: the compressed block (read only) and the output
  buffer, which starts at \<open>pOutData\<close> and holds the previously decompressed bytes
  followed by room for this block. Pointers into a buffer are modelled by their index in
  it, so \<open>pInBlock\<close> is an index into the block and \<open>pCurOutData\<close>, \<open>pSrc\<close> are
  indices into the output buffer; \<open>nBlockSize\<close> is the length of the block. A pointer
  comparison such as \<open>pInBlock < pInBlockEnd - 16\<close> is written with the constant moved
  to the other side (\<open>ip + 16 < length blk\<close>), which is the same comparison of
  addresses. Addresses are as wide as the machine's pointers and do not wrap; the
  \<open>unsigned int\<close> run lengths are 32 bits wide and do wrap.
\<close>

type_synonym byte = "8 word"

text \<open>The decoder's moving parts: \<open>pInBlock\<close>, \<open>pCurOutData\<close> and the contents of the
  output buffer.\<close>

type_synonym dstate = "nat \<times> nat \<times> byte list"

text \<open>Modelled from the spec: the constants of format.h, which is not among the source
  files. The spec gives the run marker of a nibble as 15 and the minimum match size as 4.\<close>

definition LITERALS_RUN_LEN :: nat where
  "LITERALS_RUN_LEN = 15"

definition MATCH_RUN_LEN :: nat where
  "MATCH_RUN_LEN = 15"

definition MIN_MATCH_SIZE :: nat where
  "MIN_MATCH_SIZE = 4"

text \<open>Arithmetic on \<open>unsigned int\<close>.\<close>

definition u32 :: "nat \<Rightarrow> nat" where
  "u32 n = n mod 4294967296"

text \<open>
  The \<open>do ... while (nByte == 255)\<close> loop that \<open>lz4ultra_expand_literals_slow\<close> and
  \<open>lz4ultra_expand_match_slow\<close> both run when the nibble is 15: every byte read is added
  to the length, a byte other than 255 ends the loop, and so does the end of the block.
\<close>

function read_run :: "byte list \<Rightarrow> nat \<Rightarrow> nat \<Rightarrow> nat \<times> nat" where
  "read_run blk ip n =
     (if ip < length blk then
        (let nByte = blk ! ip; n' = u32 (n + unat nByte)
         in if nByte = 255 then read_run blk (Suc ip) n' else (Suc ip, n'))
      else (ip, n))"
  by pat_completeness auto
termination
  by (relation "measure (\<lambda>(blk, ip, n). length blk - ip)") auto

declare read_run.simps [simp del]

text \<open>\<open>memcpy(pCurOutData + dst, pInBlock + src, n)\<close>: from the block into the output buffer.\<close>

definition memcpy_in :: "byte list \<Rightarrow> nat \<Rightarrow> byte list \<Rightarrow> nat \<Rightarrow> nat \<Rightarrow> byte list" where
  "memcpy_in out dst blk src n = take dst out @ take n (drop src blk) @ drop (dst + n) out"

text \<open>\<open>memcpy\<close> inside the output buffer: the \<open>n\<close> source bytes are read as they are
  before the call. The decoder only calls it with source and destination \<open>n\<close> apart or more.\<close>

definition memcpy_out :: "byte list \<Rightarrow> nat \<Rightarrow> nat \<Rightarrow> nat \<Rightarrow> byte list" where
  "memcpy_out out dst src n = take dst out @ take n (drop src out) @ drop (dst + n) out"

text \<open>\<open>*pCurOutData++ = *pSrc++\<close>, one byte.\<close>

definition copy_byte :: "byte list \<Rightarrow> nat \<Rightarrow> nat \<Rightarrow> byte list" where
  "copy_byte out src dst = out[dst := out ! src]"

text \<open>The two byte loops of \<open>lz4ultra_expand_match_slow\<close>: four bytes a turn while
  \<open>nMatchLen >= 4\<close>, then \<open>while (nMatchLen--)\<close> for what is left.\<close>

function copy4_loop :: "byte list \<Rightarrow> nat \<Rightarrow> nat \<Rightarrow> nat \<Rightarrow> byte list \<times> nat \<times> nat \<times> nat" where
  "copy4_loop out src dst n =
     (if 4 \<le> n then
        (let out1 = copy_byte out src dst;
             out2 = copy_byte out1 (src + 1) (dst + 1);
             out3 = copy_byte out2 (src + 2) (dst + 2);
             out4 = copy_byte out3 (src + 3) (dst + 3)
         in copy4_loop out4 (src + 4) (dst + 4) (n - 4))
      else (out, src, dst, n))"
  by pat_completeness auto
termination
  by (relation "measure (\<lambda>(out, src, dst, n). n)") auto

declare copy4_loop.simps [simp del]

fun copy1_loop :: "byte list \<Rightarrow> nat \<Rightarrow> nat \<Rightarrow> nat \<Rightarrow> byte list" where
  "copy1_loop out src dst 0 = out"
| "copy1_loop out src dst (Suc n) = copy1_loop (copy_byte out src dst) (Suc src) (Suc dst) n"

definition copy_match_bytes :: "byte list \<Rightarrow> nat \<Rightarrow> nat \<Rightarrow> nat \<Rightarrow> byte list" where
  "copy_match_bytes out src dst n =
     (case copy4_loop out src dst n of (out', src', dst', n') \<Rightarrow> copy1_loop out' src' dst' n')"

text \<open>The 16-bytes-a-turn \<open>do ... while (pCopyDst < pCopyEndDst)\<close> loop of
  \<open>lz4ultra_expand_match_slow\<close>.\<close>

function copy16_loop :: "byte list \<Rightarrow> nat \<Rightarrow> nat \<Rightarrow> nat \<Rightarrow> byte list" where
  "copy16_loop out src dst e =
     (let out1 = memcpy_out out dst src 8;
          out2 = memcpy_out out1 (dst + 8) (src + 8) 8
      in if dst + 16 < e then copy16_loop out2 (src + 16) (dst + 16) e else out2)"
  by pat_completeness auto
termination
  by (relation "measure (\<lambda>(out, src, dst, e). e - dst)") auto

declare copy16_loop.simps [simp del]

text \<open>
  \<open>lz4ultra_expand_literals_slow\<close>. \<open>oend\<close> is \<open>pOutDataEnd\<close>. The result is \<open>Inl\<close>
  for the return value -1, with the output buffer as it is then, and \<open>Inr\<close> with the
  pointers written back for the return value 0.
\<close>

definition lz4ultra_expand_literals_slow ::
  "byte list \<Rightarrow> nat \<Rightarrow> nat \<Rightarrow> dstate \<Rightarrow> byte list + dstate" where
  "lz4ultra_expand_literals_slow blk nLiterals oend st =
     (case st of (ip, op, out) \<Rightarrow>
        (case (if nLiterals = LITERALS_RUN_LEN then read_run blk ip nLiterals
               else (ip, nLiterals)) of
           (ip1, n) \<Rightarrow>
             if n \<noteq> 0 then
               (if ip1 + n \<le> length blk \<and> op + n \<le> oend
                then Inr (ip1 + n, op + n, memcpy_in out op blk ip1 n)
                else Inl out)
             else Inr (ip1, op, out)))"

text \<open>
  \<open>lz4ultra_expand_match_slow\<close>. \<open>pSrc\<close> is the index of the match source in the output
  buffer; \<open>pOutDataFastEnd\<close> is \<open>pOutDataEnd - 20\<close>.
\<close>

definition lz4ultra_expand_match_slow ::
  "byte list \<Rightarrow> nat \<Rightarrow> nat \<Rightarrow> nat \<Rightarrow> dstate \<Rightarrow> byte list + dstate" where
  "lz4ultra_expand_match_slow blk pSrc nMatchLen oend st =
     (case st of (ip, op, out) \<Rightarrow>
        (case (if nMatchLen = MATCH_RUN_LEN then read_run blk ip nMatchLen
               else (ip, nMatchLen)) of
           (ip1, n0) \<Rightarrow>
             (let n = u32 (n0 + MIN_MATCH_SIZE)
              in if op + n \<le> oend then
                   (if pSrc + 8 \<le> op \<and> op + n + 20 \<le> oend
                    then Inr (ip1, op + n, copy16_loop out pSrc op (op + n))
                    else Inr (ip1, op + n, copy_match_bytes out pSrc op n))
                 else Inl out)))"

text \<open>The nibbles of a token and the two-byte little-endian offset.\<close>

definition literals_nibble :: "byte \<Rightarrow> nat" where
  "literals_nibble token = unat (drop_bit 4 (token AND 0xF0))"

definition match_nibble :: "byte \<Rightarrow> nat" where
  "match_nibble token = unat (token AND 0x0F)"

definition read_offset :: "byte list \<Rightarrow> nat \<Rightarrow> nat" where
  "read_offset blk ip = unat (blk ! ip) OR push_bit 8 (unat (blk ! (ip + 1)))"

text \<open>
  The copy of a match whose offset has been read and accepted, as both loops do it.
  \<open>fast\<close> says whether the caller is the fast loop, which copies a match with a nibble
  below 15 at an offset of 8 or more with three \<open>memcpy\<close> calls (8, 8 and 4 bytes) and
  advances by the length of the match; in every other case, and in the slow loop always,
  \<open>lz4ultra_expand_match_slow\<close> does the work.
\<close>

definition copy_match ::
  "bool \<Rightarrow> byte list \<Rightarrow> nat \<Rightarrow> nat \<Rightarrow> nat \<Rightarrow> dstate \<Rightarrow> byte list + dstate" where
  "copy_match fast blk nMatchLen oend nMatchOffset st =
     (case st of (ip, op, out) \<Rightarrow>
        (let pSrc = op - nMatchOffset
         in if fast \<and> nMatchLen < MATCH_RUN_LEN \<and> 8 \<le> nMatchOffset \<and> op + 20 < oend
            then Inr (ip, op + (MIN_MATCH_SIZE + nMatchLen),
                      memcpy_out (memcpy_out (memcpy_out out op pSrc 8)
                        (op + 8) (pSrc + 8) 8) (op + 16) (pSrc + 16) 4)
            else lz4ultra_expand_match_slow blk pSrc nMatchLen oend (ip, op, out)))"

text \<open>
  What both loops do after the literals of a token: read the offset when two bytes are
  left in the block (\<open>(pInBlock + 1) < pInBlockEnd\<close>), refuse an offset that points
  before \<open>pOutData\<close>, and copy the match.
\<close>

definition expand_match :: "bool \<Rightarrow> byte list \<Rightarrow> byte \<Rightarrow> nat \<Rightarrow> dstate \<Rightarrow> byte list + dstate" where
  "expand_match fast blk token oend st =
     (case st of (ip, op, out) \<Rightarrow>
        if ip + 1 < length blk then
          (let nMatchOffset = read_offset blk ip; ip2 = ip + 2
           in if nMatchOffset \<le> op
              then copy_match fast blk (match_nibble token) oend nMatchOffset (ip2, op, out)
              else Inl out)
        else Inr st)"

text \<open>
  The literals of a token, as both loops expand them. The fast loop copies 16 bytes with
  one \<open>memcpy\<close> when the nibble is below 15 and advances by the nibble; otherwise, and
  in the slow loop always, \<open>lz4ultra_expand_literals_slow\<close> does the work.
\<close>

definition expand_literals :: "bool \<Rightarrow> byte list \<Rightarrow> byte \<Rightarrow> nat \<Rightarrow> dstate \<Rightarrow> byte list + dstate" where
  "expand_literals fast blk token oend st =
     (case st of (ip, op, out) \<Rightarrow>
        (let nLiterals = literals_nibble token
         in if fast \<and> nLiterals < LITERALS_RUN_LEN
            then Inr (ip + nLiterals, op + nLiterals, memcpy_in out op blk ip 16)
            else lz4ultra_expand_literals_slow blk nLiterals oend (ip, op, out)))"

text \<open>The body of a loop: one token. \<open>decode_token True\<close> is the body of the fast loop,
  \<open>decode_token False\<close> the body of the slow loop.\<close>

definition decode_token :: "bool \<Rightarrow> byte list \<Rightarrow> nat \<Rightarrow> dstate \<Rightarrow> byte list + dstate" where
  "decode_token fast blk oend st =
     (case st of (ip, op, out) \<Rightarrow>
        (let token = blk ! ip
         in case expand_literals fast blk token oend (ip + 1, op, out) of
              Inl b \<Rightarrow> Inl b
            | Inr st1 \<Rightarrow> expand_match fast blk token oend st1))"

text \<open>Every token moves \<open>pInBlock\<close> forward, which is why the loops end.\<close>

lemma read_run_ip: "read_run blk ip n = (ip', n') \<Longrightarrow> ip \<le> ip'"
proof (induction blk ip n rule: read_run.induct)
  case (1 blk ip n)
  show ?case
  proof (cases "ip < length blk \<and> blk ! ip = 255")
    case True
    with "1.prems" have "read_run blk (Suc ip) (u32 (n + unat (blk ! ip))) = (ip', n')"
      by (subst (asm) read_run.simps) (simp add: Let_def)
    with True "1.IH" have "Suc ip \<le> ip'" by simp
    then show ?thesis by simp
  next
    case False
    with "1.prems" show ?thesis
      by (subst (asm) read_run.simps) (auto simp: Let_def split: if_splits)
  qed
qed

lemma literals_slow_ip:
  "lz4ultra_expand_literals_slow blk nLit oend (ip, op, out) = Inr (ip', op', out') \<Longrightarrow> ip \<le> ip'"
  by (auto simp: lz4ultra_expand_literals_slow_def split: if_splits prod.splits dest: read_run_ip)

lemma match_slow_ip:
  "lz4ultra_expand_match_slow blk pSrc nMatchLen oend (ip, op, out) = Inr (ip', op', out')
   \<Longrightarrow> ip \<le> ip'"
  by (auto simp: lz4ultra_expand_match_slow_def Let_def split: if_splits prod.splits
      dest: read_run_ip)

lemma expand_literals_ip:
  "expand_literals fast blk token oend (ip, op, out) = Inr (ip', op', out') \<Longrightarrow> ip \<le> ip'"
  by (auto simp: expand_literals_def Let_def split: if_splits dest!: literals_slow_ip)

lemma copy_match_ip:
  "copy_match fast blk nMatchLen oend nMatchOffset (ip, op, out) = Inr (ip', op', out')
   \<Longrightarrow> ip \<le> ip'"
  by (auto simp: copy_match_def Let_def split: if_splits dest!: match_slow_ip)

lemma expand_match_ip:
  "expand_match fast blk token oend (ip, op, out) = Inr (ip', op', out') \<Longrightarrow> ip \<le> ip'"
  by (auto simp: expand_match_def Let_def split: if_splits dest!: copy_match_ip)

lemma decode_token_ip:
  "decode_token fast blk oend (ip, op, out) = Inr (ip', op', out') \<Longrightarrow> ip < ip'"
  by (auto simp: decode_token_def Let_def split: sum.splits
      dest!: expand_match_ip expand_literals_ip)

text \<open>The fast loop, \<open>while (pInBlock < pInBlockFastEnd && pCurOutData < pOutDataFastEnd)\<close>,
  with \<open>pInBlockFastEnd = pInBlockEnd - 16\<close> and \<open>pOutDataFastEnd = pOutDataEnd - 20\<close>.\<close>

function fast_loop :: "byte list \<Rightarrow> nat \<Rightarrow> dstate \<Rightarrow> byte list + dstate" where
  "fast_loop blk oend (ip, op, out) =
     (if ip + 16 < length blk \<and> op + 20 < oend then
        (case decode_token True blk oend (ip, op, out) of
           Inl b \<Rightarrow> Inl b
         | Inr st' \<Rightarrow> fast_loop blk oend st')
      else Inr (ip, op, out))"
  by pat_completeness auto
termination
  by (relation "measure (\<lambda>(blk, oend, ip, op, out). length blk - ip)")
     (auto dest!: decode_token_ip)

declare fast_loop.simps [simp del]

text \<open>The slow loop, \<open>while (pInBlock < pInBlockEnd)\<close>.\<close>

function slow_loop :: "byte list \<Rightarrow> nat \<Rightarrow> dstate \<Rightarrow> byte list + dstate" where
  "slow_loop blk oend (ip, op, out) =
     (if ip < length blk then
        (case decode_token False blk oend (ip, op, out) of
           Inl b \<Rightarrow> Inl b
         | Inr st' \<Rightarrow> slow_loop blk oend st')
      else Inr (ip, op, out))"
  by pat_completeness auto
termination
  by (relation "measure (\<lambda>(blk, oend, ip, op, out). length blk - ip)")
     (auto dest!: decode_token_ip)

declare slow_loop.simps [simp del]

text \<open>What the function returns once the loops are done: -1 for a failure, the number of
  bytes written otherwise, and in both cases the output buffer as the loops left it.\<close>

definition block_result :: "nat \<Rightarrow> byte list + dstate \<Rightarrow> int \<times> byte list" where
  "block_result nOutDataOffset r =
     (case r of
        Inl b \<Rightarrow> (- 1, b)
      | Inr (ip, op, out) \<Rightarrow> (int op - int nOutDataOffset, out))"

text \<open>
  \<open>lz4ultra_decompressor_expand_block_lz4\<close>: \<open>blk\<close> is the compressed block
  (\<open>nBlockSize\<close> is its length), \<open>out\<close> the output buffer from \<open>pOutData\<close> on.
\<close>

definition lz4ultra_decompressor_expand_block_lz4 ::
  "byte list \<Rightarrow> byte list \<Rightarrow> nat \<Rightarrow> nat \<Rightarrow> int \<times> byte list" where
  "lz4ultra_decompressor_expand_block_lz4 blk out nOutDataOffset nBlockMaxSize =
     (let oend = nOutDataOffset + nBlockMaxSize
      in block_result nOutDataOffset
           (case fast_loop blk oend (0, nOutDataOffset, out) of
              Inl b \<Rightarrow> Inl b
            | Inr st \<Rightarrow> slow_loop blk oend st))"

text \<open>The decoder of the specification that handles every token with the slow loop: the
  same function without its fast loop.\<close>

definition slow_only_expand_block :: "byte list \<Rightarrow> byte list \<Rightarrow> nat \<Rightarrow> nat \<Rightarrow> int \<times> byte list" where
  "slow_only_expand_block blk out nOutDataOffset nBlockMaxSize =
     (let oend = nOutDataOffset + nBlockMaxSize
      in block_result nOutDataOffset (slow_loop blk oend (0, nOutDataOffset, out)))"

section \<open>Tokens of a run\<close>

text \<open>
  The tokens of a run of the decoder. \<open>loop_starts fast\<close> lists the states in which a
  loop (the fast one for \<open>fast = True\<close>) starts a turn, and \<open>token_starts\<close> lists them
  for the whole function: the turns of the fast loop, then those of the slow loop.
\<close>

function loop_starts :: "bool \<Rightarrow> byte list \<Rightarrow> nat \<Rightarrow> dstate \<Rightarrow> dstate list" where
  "loop_starts fast blk oend (ip, op, out) =
     (if (if fast then ip + 16 < length blk \<and> op + 20 < oend else ip < length blk) then
        (ip, op, out) #
        (case decode_token fast blk oend (ip, op, out) of
           Inl b \<Rightarrow> []
         | Inr st' \<Rightarrow> loop_starts fast blk oend st')
      else [])"
  by pat_completeness auto
termination
  by (relation "measure (\<lambda>(fast, blk, oend, ip, op, out). length blk - ip)")
     (auto dest!: decode_token_ip split: if_splits)

declare loop_starts.simps [simp del]

definition token_starts :: "byte list \<Rightarrow> byte list \<Rightarrow> nat \<Rightarrow> nat \<Rightarrow> (bool \<times> dstate) list" where
  "token_starts blk out nOutDataOffset nBlockMaxSize =
     (let oend = nOutDataOffset + nBlockMaxSize; st0 = (0, nOutDataOffset, out)
      in map (Pair True) (loop_starts True blk oend st0) @
         (case fast_loop blk oend st0 of
            Inl b \<Rightarrow> []
          | Inr st1 \<Rightarrow> map (Pair False) (loop_starts False blk oend st1)))"

text \<open>What is left of the function from a turn of one of its loops on.\<close>

definition run_from :: "bool \<Rightarrow> byte list \<Rightarrow> nat \<Rightarrow> dstate \<Rightarrow> byte list + dstate" where
  "run_from fast blk oend st =
     (if fast then (case fast_loop blk oend st of Inl b \<Rightarrow> Inl b | Inr st1 \<Rightarrow> slow_loop blk oend st1)
      else slow_loop blk oend st)"

lemma loop_starts_mem:
  "st \<in> set (loop_starts fast blk oend (ip, op, out)) \<longleftrightarrow>
     (if fast then ip + 16 < length blk \<and> op + 20 < oend else ip < length blk) \<and>
     (st = (ip, op, out) \<or>
      (\<exists>st'. decode_token fast blk oend (ip, op, out) = Inr st' \<and>
             st \<in> set (loop_starts fast blk oend st')))"
  by (subst loop_starts.simps) (cases "decode_token fast blk oend (ip, op, out)"; auto)

lemma loop_starts_memD:
  assumes "st \<in> set (loop_starts fast blk oend (ip, op, out))"
  shows "if fast then ip + 16 < length blk \<and> op + 20 < oend else ip < length blk"
    and "st = (ip, op, out) \<or>
      (\<exists>st'. decode_token fast blk oend (ip, op, out) = Inr st' \<and>
             st \<in> set (loop_starts fast blk oend st'))"
  using assms loop_starts_mem[of st fast blk oend ip op out] by blast+

lemma fast_starts_loop:
  "st \<in> set (loop_starts True blk oend st0) \<Longrightarrow> fast_loop blk oend st0 = fast_loop blk oend st"
proof (induction blk oend st0 rule: fast_loop.induct)
  case (1 blk oend ip op out)
  from loop_starts_memD(1)[OF "1.prems"] have c: "ip + 16 < length blk \<and> op + 20 < oend"
    by simp
  from loop_starts_memD(2)[OF "1.prems"] consider "st = (ip, op, out)"
    | st' where "decode_token True blk oend (ip, op, out) = Inr st'"
        "st \<in> set (loop_starts True blk oend st')"
    by blast
  then show ?case
  proof cases
    case 1 then show ?thesis by simp
  next
    case 2
    from "1.IH"[OF c 2] have "fast_loop blk oend st' = fast_loop blk oend st" .
    with c 2(1) show ?thesis by (subst fast_loop.simps) simp
  qed
qed

lemma slow_starts_loop:
  "st \<in> set (loop_starts False blk oend st0) \<Longrightarrow> slow_loop blk oend st0 = slow_loop blk oend st"
proof (induction blk oend st0 rule: slow_loop.induct)
  case (1 blk oend ip op out)
  from loop_starts_memD(1)[OF "1.prems"] have c: "ip < length blk"
    by simp
  from loop_starts_memD(2)[OF "1.prems"] consider "st = (ip, op, out)"
    | st' where "decode_token False blk oend (ip, op, out) = Inr st'"
        "st \<in> set (loop_starts False blk oend st')"
    by blast
  then show ?case
  proof cases
    case 1 then show ?thesis by simp
  next
    case 2
    from "1.IH"[OF c 2] have "slow_loop blk oend st' = slow_loop blk oend st" .
    with c 2(1) show ?thesis by (subst slow_loop.simps) simp
  qed
qed

lemma loop_starts_cond:
  "(ip, op, out) \<in> set (loop_starts fast blk oend st0) \<Longrightarrow>
   (if fast then ip + 16 < length blk \<and> op + 20 < oend else ip < length blk)"
proof (induction fast blk oend st0 rule: loop_starts.induct)
  case (1 fast blk oend ip0 op0 out0)
  note c = loop_starts_memD(1)[OF "1.prems"]
  from loop_starts_memD(2)[OF "1.prems"] consider "(ip, op, out) = (ip0, op0, out0)"
    | st' where "decode_token fast blk oend (ip0, op0, out0) = Inr st'"
        "(ip, op, out) \<in> set (loop_starts fast blk oend st')"
    by blast
  then show ?case
  proof cases
    case 1 with c show ?thesis by simp
  next
    case 2
    from "1.IH"[OF c 2] show ?thesis .
  qed
qed

lemma token_starts_cases:
  assumes "(fast, st) \<in> set (token_starts blk out0 off mx)"
  shows "(fast \<and> st \<in> set (loop_starts True blk (off + mx) (0, off, out0))) \<or>
         (\<not> fast \<and> (\<exists>st1. fast_loop blk (off + mx) (0, off, out0) = Inr st1 \<and>
                           st \<in> set (loop_starts False blk (off + mx) st1)))"
proof (cases "fast_loop blk (off + mx) (0, off, out0)")
  case (Inl b)
  with assms show ?thesis
    by (simp add: token_starts_def Let_def image_iff)
next
  case (Inr st1)
  with assms show ?thesis
    by (auto simp: token_starts_def Let_def image_iff)
qed

lemma token_start_result:
  assumes "(fast, st) \<in> set (token_starts blk out0 off mx)"
  shows "lz4ultra_decompressor_expand_block_lz4 blk out0 off mx =
         block_result off (run_from fast blk (off + mx) st)"
proof -
  from token_starts_cases[OF assms] show ?thesis
  proof (elim disjE conjE exE)
    assume f: fast and m: "st \<in> set (loop_starts True blk (off + mx) (0, off, out0))"
    from fast_starts_loop[OF m] f show ?thesis
      by (simp add: lz4ultra_decompressor_expand_block_lz4_def run_from_def Let_def)
  next
    fix st1
    assume f: "\<not> fast" and l: "fast_loop blk (off + mx) (0, off, out0) = Inr st1"
      and m: "st \<in> set (loop_starts False blk (off + mx) st1)"
    from slow_starts_loop[OF m] f l show ?thesis
      by (simp add: lz4ultra_decompressor_expand_block_lz4_def run_from_def Let_def)
  qed
qed

lemma token_start_cond:
  assumes "(fast, ip, op, out) \<in> set (token_starts blk out0 off mx)"
  shows "if fast then ip + 16 < length blk \<and> op + 20 < off + mx else ip < length blk"
  using token_starts_cases[OF assms] loop_starts_cond[of ip op out fast blk "off + mx"]
  by (cases fast) auto

lemma run_from_step:
  assumes "if fast then ip + 16 < length blk \<and> op + 20 < oend else ip < length blk"
  shows "run_from fast blk oend (ip, op, out) =
         (case decode_token fast blk oend (ip, op, out) of
            Inl b \<Rightarrow> Inl b
          | Inr st' \<Rightarrow> run_from fast blk oend st')"
proof (cases fast)
  case True
  with assms show ?thesis
    by (cases "decode_token True blk oend (ip, op, out)")
       (simp_all add: run_from_def fast_loop.simps[of blk oend ip op out])
next
  case False
  with assms show ?thesis
    by (cases "decode_token False blk oend (ip, op, out)")
       (simp_all add: run_from_def slow_loop.simps[of blk oend ip op out])
qed

lemma token_start_step:
  assumes "(fast, ip, op, out) \<in> set (token_starts blk out0 off mx)"
  shows "lz4ultra_decompressor_expand_block_lz4 blk out0 off mx =
         block_result off
           (case decode_token fast blk (off + mx) (ip, op, out) of
              Inl b \<Rightarrow> Inl b
            | Inr st' \<Rightarrow> run_from fast blk (off + mx) st')"
  using token_start_result[OF assms] run_from_step[OF token_start_cond[OF assms]]
  by simp

section \<open>Offsets that point before the output buffer\<close>

text \<open>
  Claim C5. After the literals of a token, in either loop, when two bytes are left in the
  block and the offset they hold is larger than the number of bytes in the output buffer
  before \<open>pCurOutData\<close> (dictionary and earlier blocks included), so that \<open>pSrc\<close> would
  lie before \<open>pOutData\<close>, the function returns -1, and the output buffer is as the
  literals of that token left it: nothing of the match is copied.
\<close>

theorem offset_before_buffer_rejected:
  assumes "(fast, ip, op, out) \<in> set (token_starts blk out0 off mx)"
    and "expand_literals fast blk (blk ! ip) (off + mx) (ip + 1, op, out) = Inr (ip1, op1, out1)"
    and "ip1 + 1 < length blk"
    and "op1 < read_offset blk ip1"
  shows "lz4ultra_decompressor_expand_block_lz4 blk out0 off mx = (- 1, out1)"
proof -
  from assms(2-4) have "decode_token fast blk (off + mx) (ip, op, out) = Inl out1"
    by (simp add: decode_token_def expand_match_def Let_def)
  with token_start_step[OF assms(1)] show ?thesis
    by (simp add: block_result_def)
qed

text \<open>A block of 18 bytes whose first token, taken by the fast loop, has one literal and
  the offset 5 with a single byte in the output buffer.\<close>

definition bad_offset_block :: "byte list" where
  "bad_offset_block = [0x10, 0x41, 0x05, 0x00, 0, 0, 0, 0, 0, 0, 0, 0, 0, 0, 0, 0, 0, 0]"

theorem offset_before_buffer_rejected_witness:
  "(True, 0, 0, replicate 32 0) \<in> set (token_starts bad_offset_block (replicate 32 0) 0 32) \<and>
   expand_literals True bad_offset_block (bad_offset_block ! 0) (0 + 32) (0 + 1, 0, replicate 32 0)
     = Inr (2, 1, [0x41, 5, 0, 0, 0, 0, 0, 0, 0, 0, 0, 0, 0, 0, 0, 0] @ replicate 16 0) \<and>
   2 + 1 < length bad_offset_block \<and>
   1 < read_offset bad_offset_block 2 \<and>
   lz4ultra_decompressor_expand_block_lz4 bad_offset_block (replicate 32 0) 0 32
     = (- 1, [0x41, 5, 0, 0, 0, 0, 0, 0, 0, 0, 0, 0, 0, 0, 0, 0] @ replicate 16 0)"
proof -
  have h1: "(True, 0, 0, replicate 32 0) \<in> set (token_starts bad_offset_block (replicate 32 0) 0 32)"
    by (simp add: token_starts_def Let_def bad_offset_block_def loop_starts.simps[of True _ _ 0 0])
  have h2: "expand_literals True bad_offset_block (bad_offset_block ! 0) (0 + 32)
              (0 + 1, 0, replicate 32 0)
            = Inr (2, 1, [0x41, 5, 0, 0, 0, 0, 0, 0, 0, 0, 0, 0, 0, 0, 0, 0] @ replicate 16 0)"
    by (simp add: expand_literals_def bad_offset_block_def literals_nibble_def
        LITERALS_RUN_LEN_def memcpy_in_def)
  have h3: "2 + 1 < length bad_offset_block"
    by (simp add: bad_offset_block_def)
  have h4: "1 < read_offset bad_offset_block 2"
    by (simp add: read_offset_def bad_offset_block_def)
  from offset_before_buffer_rejected[OF h1 h2 h3 h4] h1 h2 h3 h4 show ?thesis
    by blast
qed

section \<open>The last token of a block\<close>

lemma loop_starts_head:
  "(if fast then ip + 16 < length blk \<and> op + 20 < oend else ip < length blk) \<Longrightarrow>
   (ip, op, out) \<in> set (loop_starts fast blk oend (ip, op, out))"
  using loop_starts_mem[of "(ip, op, out)" fast blk oend ip op out] by blast

lemma loop_starts_next:
  assumes "st \<in> set (loop_starts fast blk oend st0)"
    and "decode_token fast blk oend st = Inr (ip', op', out')"
    and "if fast then ip' + 16 < length blk \<and> op' + 20 < oend else ip' < length blk"
  shows "(ip', op', out') \<in> set (loop_starts fast blk oend st0)"
  using assms
proof (induction fast blk oend st0 rule: loop_starts.induct)
  case (1 fast blk oend ip0 op0 out0)
  note c = loop_starts_memD(1)[OF "1.prems"(1)]
  from loop_starts_memD(2)[OF "1.prems"(1)] consider "st = (ip0, op0, out0)"
    | st1 where "decode_token fast blk oend (ip0, op0, out0) = Inr st1"
        "st \<in> set (loop_starts fast blk oend st1)"
    by blast
  then show ?case
  proof cases
    case 1
    with "1.prems"(2) have d: "decode_token fast blk oend (ip0, op0, out0) = Inr (ip', op', out')"
      by simp
    from loop_starts_head[OF "1.prems"(3)]
    have "(ip', op', out') \<in> set (loop_starts fast blk oend (ip', op', out'))" .
    with c d show ?thesis
      using loop_starts_mem[of "(ip', op', out')" fast blk oend ip0 op0 out0] by blast
  next
    case 2
    from "1.IH"[OF c 2 "1.prems"(2,3)]
    have "(ip', op', out') \<in> set (loop_starts fast blk oend st1)" .
    with c 2(1) show ?thesis
      using loop_starts_mem[of "(ip', op', out')" fast blk oend ip0 op0 out0] by blast
  qed
qed

lemma fast_loop_stop:
  "\<not> (ip + 16 < length blk \<and> op + 20 < oend) \<Longrightarrow>
   fast_loop blk oend (ip, op, out) = Inr (ip, op, out)"
  by (subst fast_loop.simps) auto

lemma slow_loop_stop:
  "\<not> ip < length blk \<Longrightarrow> slow_loop blk oend (ip, op, out) = Inr (ip, op, out)"
  by (subst slow_loop.simps) simp

lemma fast_loop_step:
  "ip + 16 < length blk \<and> op + 20 < oend \<Longrightarrow>
   fast_loop blk oend (ip, op, out) =
     (case decode_token True blk oend (ip, op, out) of
        Inl b \<Rightarrow> Inl b | Inr st' \<Rightarrow> fast_loop blk oend st')"
  by (subst fast_loop.simps) simp

text \<open>The token that follows a token of the run is a token of the run: of the same loop
  while that loop goes on, of the slow loop once the fast loop has stopped.\<close>

lemma token_starts_next:
  assumes m: "(fast, ip, op, out) \<in> set (token_starts blk out0 off mx)"
    and d: "decode_token fast blk (off + mx) (ip, op, out) = Inr (ip', op', out')"
    and l: "ip' < length blk"
  shows "(fast \<and> ip' + 16 < length blk \<and> op' + 20 < off + mx, ip', op', out')
         \<in> set (token_starts blk out0 off mx)"
proof -
  let ?oend = "off + mx"
  let ?st0 = "(0, off, out0)"
  from token_starts_cases[OF m] show ?thesis
  proof (elim disjE conjE exE)
    assume f: fast and ms: "(ip, op, out) \<in> set (loop_starts True blk ?oend ?st0)"
    show ?thesis
    proof (cases "ip' + 16 < length blk \<and> op' + 20 < ?oend")
      case True
      with loop_starts_next[OF ms, of ip' op' out'] d f
      have "(ip', op', out') \<in> set (loop_starts True blk ?oend ?st0)" by simp
      with True f show ?thesis
        by (simp add: token_starts_def Let_def image_iff)
    next
      case False
      from loop_starts_cond[OF ms] have c: "ip + 16 < length blk \<and> op + 20 < ?oend" by simp
      have "fast_loop blk ?oend ?st0 = fast_loop blk ?oend (ip, op, out)"
        by (rule fast_starts_loop[OF ms])
      also have "\<dots> = fast_loop blk ?oend (ip', op', out')"
        using d f by (simp add: fast_loop_step[OF c])
      also have "\<dots> = Inr (ip', op', out')"
        by (rule fast_loop_stop[OF False])
      finally have e: "fast_loop blk ?oend ?st0 = Inr (ip', op', out')" .
      have "(ip', op', out') \<in> set (loop_starts False blk ?oend (ip', op', out'))"
        by (rule loop_starts_head) (simp add: l)
      with e False show ?thesis
        by (auto simp: token_starts_def Let_def image_iff)
    qed
  next
    fix st1
    assume f: "\<not> fast" and e: "fast_loop blk ?oend ?st0 = Inr st1"
      and ms: "(ip, op, out) \<in> set (loop_starts False blk ?oend st1)"
    from loop_starts_next[OF ms, of ip' op' out'] d f l
    have "(ip', op', out') \<in> set (loop_starts False blk ?oend st1)" by simp
    with e f show ?thesis
      by (auto simp: token_starts_def Let_def image_iff)
  qed
qed

text \<open>The literals of a token never move \<open>pInBlock\<close> past the end of the block.\<close>

lemma read_run_le: "read_run blk ip n = (ip', n') \<Longrightarrow> ip \<le> length blk \<Longrightarrow> ip' \<le> length blk"
proof (induction blk ip n rule: read_run.induct)
  case (1 blk ip n)
  show ?case
  proof (cases "ip < length blk \<and> blk ! ip = 255")
    case True
    with "1.prems" have "read_run blk (Suc ip) (u32 (n + unat (blk ! ip))) = (ip', n')"
      by (subst (asm) read_run.simps) (simp add: Let_def)
    with True "1.IH" show ?thesis by simp
  next
    case False
    with "1.prems" show ?thesis
      by (subst (asm) read_run.simps) (auto simp: Let_def split: if_splits)
  qed
qed

lemma expand_literals_le:
  assumes "expand_literals fast blk token oend (ip, op, out) = Inr (ip', op', out')"
    and "ip \<le> length blk" and "fast \<longrightarrow> ip + 15 < length blk"
  shows "ip' \<le> length blk"
  using assms
  by (auto simp: expand_literals_def lz4ultra_expand_literals_slow_def Let_def
      LITERALS_RUN_LEN_def split: if_splits prod.splits dest: read_run_le)

text \<open>The two bytes of an offset, low byte first.\<close>

lemma read_offset_le: "read_offset blk ip = unat (blk ! ip) + 256 * unat (blk ! (ip + 1))"
proof -
  let ?a = "unat (blk ! ip)" and ?b = "unat (blk ! (ip + 1))"
  have "?a < 2 ^ 8"
    using unsigned_less[of "blk ! ip"] by simp
  then have a: "take_bit 8 ?a = ?a"
    by (simp add: take_bit_nat_eq_self)
  have "\<not> bit ?a n \<or> \<not> bit (push_bit 8 ?b) n" for n
  proof (cases "n < 8")
    case True
    then show ?thesis by (simp add: bit_push_bit_iff)
  next
    case False
    have "bit (take_bit 8 ?a) n \<longleftrightarrow> n < 8 \<and> bit ?a n"
      by (rule bit_take_bit_iff)
    with a False show ?thesis by simp
  qed
  then have "?a + push_bit 8 ?b = ?a OR push_bit 8 ?b"
    by (rule disjunctive_add)
  then show ?thesis
    by (simp add: read_offset_def push_bit_eq_mult)
qed


lemma run_from_stop:
  "\<not> ip < length blk \<Longrightarrow> run_from fast blk oend (ip, op, out) = Inr (ip, op, out)"
  by (simp add: run_from_def fast_loop_stop slow_loop_stop)

text \<open>The definitions that evaluate the decoder on a given block.\<close>

lemma copy1_loop_unfold:
  "copy1_loop out src dst n =
     (if n = 0 then out else copy1_loop (copy_byte out src dst) (Suc src) (Suc dst) (n - 1))"
  by (cases n) simp_all

lemma replicate_unfold:
  "replicate n x = (if n = 0 then [] else x # replicate (n - 1) x)"
  by (cases n) simp_all

lemmas decoder_eval =
  lz4ultra_decompressor_expand_block_lz4_def slow_only_expand_block_def block_result_def
  token_starts_def loop_starts.simps fast_loop.simps slow_loop.simps decode_token_def
  expand_literals_def expand_match_def copy_match_def lz4ultra_expand_literals_slow_def
  lz4ultra_expand_match_slow_def read_run.simps read_offset_def literals_nibble_def
  match_nibble_def memcpy_in_def memcpy_out_def copy_match_bytes_def copy4_loop.simps
  copy1_loop_unfold copy16_loop.simps copy_byte_def u32_def LITERALS_RUN_LEN_def
  MATCH_RUN_LEN_def MIN_MATCH_SIZE_def Let_def replicate_unfold

text \<open>
  Claim C8, as amended. After the literals of a token the decoder reads an offset, low
  byte first, exactly when two bytes or more are left in the block; it then refuses the
  offset or copies the match. When fewer than two bytes are left the token has no match.
  It is the last token of the block when no byte is left: the function then returns the
  number of bytes written. When one byte is left, that byte is decoded as one more token.
\<close>

theorem offset_read_iff_two_bytes_left:
  assumes m: "(fast, ip, op, out) \<in> set (token_starts blk out0 off mx)"
    and lit: "expand_literals fast blk (blk ! ip) (off + mx) (ip + 1, op, out)
              = Inr (ip1, op1, out1)"
  shows "ip1 \<le> length blk \<and>
    (ip1 + 1 < length blk \<longrightarrow>
       decode_token fast blk (off + mx) (ip, op, out) =
         (let nMatchOffset = unat (blk ! ip1) + 256 * unat (blk ! (ip1 + 1))
          in if nMatchOffset \<le> op1
             then copy_match fast blk (match_nibble (blk ! ip)) (off + mx) nMatchOffset
                    (ip1 + 2, op1, out1)
             else Inl out1)) \<and>
    (\<not> ip1 + 1 < length blk \<longrightarrow>
       decode_token fast blk (off + mx) (ip, op, out) = Inr (ip1, op1, out1)) \<and>
    (ip1 = length blk \<longrightarrow>
       lz4ultra_decompressor_expand_block_lz4 blk out0 off mx = (int op1 - int off, out1)) \<and>
    (ip1 + 1 = length blk \<longrightarrow>
       (False, ip1, op1, out1) \<in> set (token_starts blk out0 off mx))"
proof -
  note c = token_start_cond[OF m]
  from c have "ip + 1 \<le> length blk" and "fast \<longrightarrow> ip + 1 + 15 < length blk"
    by (auto split: if_splits)
  with expand_literals_le[OF lit] have le: "ip1 \<le> length blk" by simp
  have two: "decode_token fast blk (off + mx) (ip, op, out) =
         (let nMatchOffset = unat (blk ! ip1) + 256 * unat (blk ! (ip1 + 1))
          in if nMatchOffset \<le> op1
             then copy_match fast blk (match_nibble (blk ! ip)) (off + mx) nMatchOffset
                    (ip1 + 2, op1, out1)
             else Inl out1)" if "ip1 + 1 < length blk"
    using that lit by (simp add: decode_token_def expand_match_def Let_def read_offset_le)
  have none: "decode_token fast blk (off + mx) (ip, op, out) = Inr (ip1, op1, out1)"
    if "\<not> ip1 + 1 < length blk"
    using that lit by (simp add: decode_token_def expand_match_def Let_def)
  have last: "lz4ultra_decompressor_expand_block_lz4 blk out0 off mx = (int op1 - int off, out1)"
    if "ip1 = length blk"
  proof -
    from that have "\<not> ip1 + 1 < length blk" and "\<not> ip1 < length blk" by simp_all
    with none run_from_stop[of ip1 blk fast "off + mx" op1 out1] token_start_step[OF m]
    show ?thesis by (simp add: block_result_def)
  qed
  have more: "(False, ip1, op1, out1) \<in> set (token_starts blk out0 off mx)"
    if "ip1 + 1 = length blk"
  proof -
    from that have "\<not> ip1 + 1 < length blk" and "ip1 < length blk" by simp_all
    with none token_starts_next[OF m, of ip1 op1 out1] that show ?thesis by simp
  qed
  from le two none last more show ?thesis by blast
qed

text \<open>The block of the specification's first scenario, for the eight bytes \<open>aaaaaaaa\<close>: a
  token with one literal and a match of length 7 at offset 1, then a token without
  literals that ends the block.\<close>

definition aaaa_block :: "byte list" where
  "aaaa_block = [0x13, 0x61, 0x01, 0x00, 0x00]"

text \<open>A block whose only token leaves one byte behind its literal.\<close>

definition stray_byte_block :: "byte \<Rightarrow> byte list" where
  "stray_byte_block b = [0x10, 0x41, b]"

theorem offset_read_iff_two_bytes_left_witness:
  "decode_token False aaaa_block (0 + 16) (0, 0, replicate 16 0)
     = Inr (4, 8, replicate 8 0x61 @ replicate 8 0) \<and>
   lz4ultra_decompressor_expand_block_lz4 aaaa_block (replicate 16 0) 0 16
     = (8, replicate 8 0x61 @ replicate 8 0) \<and>
   decode_token False (stray_byte_block 0) (0 + 8) (0, 0, replicate 8 0)
     = Inr (2, 1, 0x41 # replicate 7 0) \<and>
   (False, 2, 1, 0x41 # replicate 7 0)
     \<in> set (token_starts (stray_byte_block 0) (replicate 8 0) 0 8)"
proof -
  have m1: "(False, 0, 0, replicate 16 0) \<in> set (token_starts aaaa_block (replicate 16 0) 0 16)"
    by (simp add: decoder_eval aaaa_block_def)
  have l1: "expand_literals False aaaa_block (aaaa_block ! 0) (0 + 16) (0 + 1, 0, replicate 16 0)
            = Inr (2, 1, 0x61 # replicate 15 0)"
    by (simp add: decoder_eval aaaa_block_def)
  have m2: "(False, 4, 8, replicate 8 0x61 @ replicate 8 0)
            \<in> set (token_starts aaaa_block (replicate 16 0) 0 16)"
    by (simp add: decoder_eval aaaa_block_def)
  have l2: "expand_literals False aaaa_block (aaaa_block ! 4) (0 + 16)
              (4 + 1, 8, replicate 8 0x61 @ replicate 8 0)
            = Inr (5, 8, replicate 8 0x61 @ replicate 8 0)"
    by (simp add: decoder_eval aaaa_block_def)
  have m3: "(False, 0, 0, replicate 8 0)
            \<in> set (token_starts (stray_byte_block 0) (replicate 8 0) 0 8)"
    by (simp add: decoder_eval stray_byte_block_def)
  have l3: "expand_literals False (stray_byte_block 0) (stray_byte_block 0 ! 0) (0 + 8)
              (0 + 1, 0, replicate 8 0)
            = Inr (2, 1, 0x41 # replicate 7 0)"
    by (simp add: decoder_eval stray_byte_block_def)
  have c: "copy_match False aaaa_block (match_nibble (aaaa_block ! 0)) (0 + 16) 1
             (2 + 2, 1, 0x61 # replicate 15 0)
           = Inr (4, 8, replicate 8 0x61 @ replicate 8 0)"
    by (simp add: aaaa_block_def match_nibble_def copy_match_def lz4ultra_expand_match_slow_def
        copy_match_bytes_def copy4_loop.simps copy1_loop_unfold copy_byte_def u32_def
        MATCH_RUN_LEN_def MIN_MATCH_SIZE_def Let_def replicate_unfold)
  from offset_read_iff_two_bytes_left[OF m1 l1] c
  have a: "decode_token False aaaa_block (0 + 16) (0, 0, replicate 16 0)
           = Inr (4, 8, replicate 8 0x61 @ replicate 8 0)"
    by (simp add: aaaa_block_def replicate_unfold)
  from offset_read_iff_two_bytes_left[OF m2 l2]
  have b: "lz4ultra_decompressor_expand_block_lz4 aaaa_block (replicate 16 0) 0 16
           = (8, replicate 8 0x61 @ replicate 8 0)"
    by (simp add: aaaa_block_def replicate_unfold)
  from offset_read_iff_two_bytes_left[OF m3 l3]
  have "decode_token False (stray_byte_block 0) (0 + 8) (0, 0, replicate 8 0)
          = Inr (2, 1, 0x41 # replicate 7 0)"
    and "(False, 2, 1, 0x41 # replicate 7 0)
          \<in> set (token_starts (stray_byte_block 0) (replicate 8 0) 0 8)"
    by (simp_all add: stray_byte_block_def replicate_unfold)
  with a b show ?thesis by blast
qed

text \<open>
  Claim C8 as stated fails where one byte is left after the literals of a token. In the
  block \<open>10 41 20\<close> the literal of the first token ends at the last byte; no offset is
  read, but the token is not taken as the last one: the byte \<open>20\<close> is decoded as a token
  with two literals that the block does not hold, and the function returns -1 instead of
  the one byte the first token wrote.
\<close>

theorem stray_byte_counterexample:
  "expand_literals False (stray_byte_block 0x20) (stray_byte_block 0x20 ! 0) (0 + 8)
     (0 + 1, 0, replicate 8 0) = Inr (2, 1, 0x41 # replicate 7 0) \<and>
   \<not> 2 + 1 < length (stray_byte_block 0x20) \<and>
   (False, 2, 1, 0x41 # replicate 7 0)
     \<in> set (token_starts (stray_byte_block 0x20) (replicate 8 0) 0 8) \<and>
   lz4ultra_decompressor_expand_block_lz4 (stray_byte_block 0x20) (replicate 8 0) 0 8
     = (- 1, 0x41 # replicate 7 0) \<and>
   lz4ultra_decompressor_expand_block_lz4 (stray_byte_block 0x20) (replicate 8 0) 0 8
     \<noteq> block_result 0 (Inr (2, 1, 0x41 # replicate 7 0))"
  by (simp add: decoder_eval stray_byte_block_def)

section \<open>Run lengths\<close>


text \<open>The extension bytes of a run that ends inside the block: \<open>k\<close> bytes 255 and then a
  byte that is not 255.\<close>

lemma read_run_terminated:
  assumes "\<forall>i<k. blk ! (ip + i) = 255"
    and "ip + k < length blk"
    and "blk ! (ip + k) \<noteq> 255"
    and "n + 255 * k + 255 < 4294967296"
  shows "read_run blk ip n = (ip + k + 1, n + 255 * k + unat (blk ! (ip + k)))"
  using assms
proof (induction k arbitrary: ip n)
  case 0
  have "unat (blk ! ip) < 256"
    using unsigned_less[of "blk ! ip"] by simp
  with 0 show ?case
    by (subst read_run.simps) (simp add: Let_def u32_def)
next
  case (Suc k)
  from Suc.prems(1) have b: "blk ! ip = 255" by force
  from Suc.prems(2) have l: "ip < length blk" by simp
  from b Suc.prems(4) have n': "u32 (n + unat (blk ! ip)) = n + 255"
    by (simp add: u32_def)
  have "read_run blk (Suc ip) (n + 255)
        = (Suc ip + k + 1, n + 255 + 255 * k + unat (blk ! (Suc ip + k)))"
  proof (rule Suc.IH)
    show "\<forall>i<k. blk ! (Suc ip + i) = 255"
      using Suc.prems(1) by (metis Suc_less_eq add_Suc_shift)
    show "Suc ip + k < length blk" using Suc.prems(2) by simp
    show "blk ! (Suc ip + k) \<noteq> 255" using Suc.prems(3) by simp
    show "n + 255 + 255 * k + 255 < 4294967296" using Suc.prems(4) by simp
  qed
  with b l n' show ?case
    by (subst read_run.simps) (simp add: Let_def)
qed


section \<open>Runs cut off by the end of the block\<close>










end
